theory Spec2Isabelle
  imports Complex_Main "HOL-Library.Sublist"
begin

section \<open>Support/resistance zone detection (zone\_detector.py)\<close>

text \<open>
  A shallow embedding of \<^verbatim>\<open>src/zone_detector.py\<close>. Prices are Python floats; they are
  modelled as real numbers, so that comparisons, \<open>min\<close> and \<open>max\<close> are exact and NaN is
  left out. Timestamps, strengths and slice caps are Python integers (\<open>int\<close>). A pivot
  index is a position in the candle list, produced by \<^verbatim>\<open>range(2, n - 2)\<close>, and is a
  natural number. The field \<^verbatim>\<open>type\<close> of a zone is a string documented as
  \<^verbatim>\<open>'support' | 'resistance'\<close>, \<^verbatim>\<open>status\<close> one documented as
  \<^verbatim>\<open>'active' | 'broken'\<close>, and the \<^verbatim>\<open>type\<close> of a pivot is
  \<^verbatim>\<open>'high' | 'low'\<close>: each is a datatype with these two values.
\<close>

subsection \<open>Data model\<close>

datatype zone_type = Support | Resistance

datatype zone_status = Active | Broken

datatype pivot_type = High | Low

text \<open>A candle is the dictionary built by \<^verbatim>\<open>fetch_candles\<close>; \<open>open_c\<close> is its key \<^verbatim>\<open>open\<close>.\<close>

record candle =
  open_time :: int
  open_c :: real
  high :: real
  low :: real
  close :: real
  volume :: real

text \<open>The dataclass \<^verbatim>\<open>Zone\<close>; \<open>ztype\<close> is its field \<^verbatim>\<open>type\<close>.\<close>

record zone =
  ztype :: zone_type
  zone_low :: real
  zone_high :: real
  origin_time :: int
  strength :: int
  touches :: int
  status :: zone_status
  pivot_idx :: nat

text \<open>The dictionary \<^verbatim>\<open>{'idx', 'type', 'candle'}\<close> that \<^verbatim>\<open>_find_pivots\<close> appends.\<close>

record pivot =
  idx :: nat
  ptype :: pivot_type
  candle :: candle

text \<open>
  The constructor call \<^verbatim>\<open>Zone(type=.., zone_low=.., zone_high=.., origin_time=.., pivot_idx=..)\<close>
  with the dataclass defaults \<^verbatim>\<open>strength=1, touches=0, status="active"\<close>.
\<close>

definition Zone :: "zone_type \<Rightarrow> real \<Rightarrow> real \<Rightarrow> int \<Rightarrow> nat \<Rightarrow> zone" where
  "Zone t zl zh ot i =
     \<lparr>ztype = t, zone_low = zl, zone_high = zh, origin_time = ot,
      strength = 1, touches = 0, status = Active, pivot_idx = i\<rparr>"

subsection \<open>Python list indexing and slicing\<close>

text \<open>
  \<^verbatim>\<open>xs[i]\<close>: a negative index counts from the end, and an index out of range raises
  IndexError, which is the value \<open>None\<close>.
\<close>

definition item :: "'a list \<Rightarrow> int \<Rightarrow> 'a option" where
  "item xs i =
     (let n = int (length xs); j = (if i < 0 then n + i else i)
      in if 0 \<le> j \<and> j < n then Some (xs ! nat j) else None)"

text \<open>\<^verbatim>\<open>xs[:k]\<close>: a negative \<open>k\<close> drops the last \<open>-k\<close> elements.\<close>

definition py_prefix :: "'a list \<Rightarrow> int \<Rightarrow> 'a list" where
  "py_prefix xs k =
     (if k < 0 then take (nat (int (length xs) + k)) xs else take (nat k) xs)"

text \<open>\<^verbatim>\<open>a and b\<close> on results that may raise: \<open>b\<close> is evaluated only when \<open>a\<close> is true.\<close>

fun py_and :: "bool option \<Rightarrow> bool option \<Rightarrow> bool option" where
  "py_and None b = None"
| "py_and (Some False) b = Some False"
| "py_and (Some True) b = b"

subsection \<open>\<^verbatim>\<open>Zone.distance_pct\<close>\<close>

text \<open>Division of a float by zero raises ZeroDivisionError: the value \<open>None\<close>.\<close>

definition distance_pct :: "zone \<Rightarrow> real \<Rightarrow> real option" where
  "distance_pct z price =
     (if ztype z = Resistance
      then (if price = 0 then None else Some ((zone_low z - price) / price * 100))
      else (if price = 0 then None else Some ((zone_high z - price) / price * 100)))"

subsection \<open>\<^verbatim>\<open>_find_pivots\<close>\<close>

definition high_above :: "candle \<Rightarrow> candle list \<Rightarrow> int \<Rightarrow> bool option" where
  "high_above c candles k = map_option (\<lambda>d. high c > high d) (item candles k)"

definition low_below :: "candle \<Rightarrow> candle list \<Rightarrow> int \<Rightarrow> bool option" where
  "low_below c candles k = map_option (\<lambda>d. low c < low d) (item candles k)"

definition is_ph :: "candle list \<Rightarrow> nat \<Rightarrow> candle \<Rightarrow> bool option" where
  "is_ph candles i c =
     py_and (high_above c candles (int i - 1))
       (py_and (high_above c candles (int i - 2))
         (py_and (high_above c candles (int i + 1))
           (high_above c candles (int i + 2))))"

definition is_pl :: "candle list \<Rightarrow> nat \<Rightarrow> candle \<Rightarrow> bool option" where
  "is_pl candles i c =
     py_and (low_below c candles (int i - 1))
       (py_and (low_below c candles (int i - 2))
         (py_and (low_below c candles (int i + 1))
           (low_below c candles (int i + 2))))"

text \<open>One iteration of the loop body, on the list \<open>pivots\<close> built so far.\<close>

definition pivots_step :: "candle list \<Rightarrow> nat \<Rightarrow> pivot list \<Rightarrow> pivot list option" where
  "pivots_step candles i pivots =
     (case item candles (int i) of
        None \<Rightarrow> None
      | Some c \<Rightarrow>
          (case is_ph candles i c of
             None \<Rightarrow> None
           | Some ph \<Rightarrow>
               (case is_pl candles i c of
                  None \<Rightarrow> None
                | Some pl \<Rightarrow>
                    Some (pivots
                      @ (if ph then [\<lparr>idx = i, ptype = High, candle = c\<rparr>] else [])
                      @ (if pl then [\<lparr>idx = i, ptype = Low, candle = c\<rparr>] else [])))))"

fun pivots_loop :: "candle list \<Rightarrow> nat list \<Rightarrow> pivot list \<Rightarrow> pivot list option" where
  "pivots_loop candles [] pivots = Some pivots"
| "pivots_loop candles (i # is) pivots =
     (case pivots_step candles i pivots of
        None \<Rightarrow> None
      | Some pivots' \<Rightarrow> pivots_loop candles is pivots')"

text \<open>
  \<^verbatim>\<open>range(2, n - 2)\<close> is \<open>[2..<n - 2]\<close>: for \<open>n < 2\<close> the truncated difference is \<open>0\<close>
  and the range is empty, as Python's is for a negative bound.
\<close>

definition find_pivots :: "candle list \<Rightarrow> pivot list option" where
  "find_pivots candles = pivots_loop candles [2..<length candles - 2] []"

subsection \<open>\<^verbatim>\<open>_init_zone_from_pivot\<close>\<close>

definition get_body_high :: "candle \<Rightarrow> real" where
  "get_body_high c = max (open_c c) (close c)"

definition get_body_low :: "candle \<Rightarrow> real" where
  "get_body_low c = min (open_c c) (close c)"

text \<open>The body of the neighbour loop of a pivot high, on the current \<open>zone_low\<close>.\<close>

definition neighbor_high :: "candle list \<Rightarrow> real \<Rightarrow> int \<Rightarrow> real \<Rightarrow> real" where
  "neighbor_high candles zh neighbor_idx zl =
     (if 0 \<le> neighbor_idx \<and> neighbor_idx < int (length candles)
      then (let nb = candles ! nat neighbor_idx; nb_body_high = get_body_high nb
            in if nb_body_high > zl \<and> nb_body_high < zh then max zl nb_body_high else zl)
      else zl)"

text \<open>The body of the neighbour loop of a pivot low, on the current \<open>zone_high\<close>.\<close>

definition neighbor_low :: "candle list \<Rightarrow> real \<Rightarrow> int \<Rightarrow> real \<Rightarrow> real" where
  "neighbor_low candles zl neighbor_idx zh =
     (if 0 \<le> neighbor_idx \<and> neighbor_idx < int (length candles)
      then (let nb = candles ! nat neighbor_idx; nb_body_low = get_body_low nb
            in if nb_body_low < zh \<and> nb_body_low > zl then min zh nb_body_low else zh)
      else zh)"

definition neighbors :: "nat \<Rightarrow> int list" where
  "neighbors i = [int i - 1, int i - 2, int i + 1, int i + 2]"

text \<open>The result \<open>None\<close> is Python's \<^verbatim>\<open>None\<close> (no zone), not an error.\<close>

definition init_zone_from_pivot :: "pivot \<Rightarrow> candle list \<Rightarrow> zone option" where
  "init_zone_from_pivot p candles =
     (let i = idx p; c = candle p in
      if ptype p = High then
        (let zh = high c; zl = get_body_high c in
         if zl \<ge> zh then None
         else (let zl' = fold (neighbor_high candles zh) (neighbors i) zl in
               if zl' \<ge> zh then None
               else Some (Zone Resistance zl' zh (open_time c) i)))
      else
        (let zl = low c; zh = get_body_low c in
         if zh \<le> zl then None
         else (let zh' = fold (neighbor_low candles zl) (neighbors i) zh in
               if zh' \<le> zl then None
               else Some (Zone Support zl zh' (open_time c) i))))"

subsection \<open>\<^verbatim>\<open>_refine_zone\<close>\<close>

text \<open>
  How a walk over the candles ended. The source does not return it; the walks below do, so
  that the branch that stopped a walk can be named.
\<close>

datatype stop = WickStop | CloseStop | EndOfCandles

text \<open>
  The \<^verbatim>\<open>for\<close> loop of the support branch over \<^verbatim>\<open>candles[pivot_idx], ..\<close>, on the running
  \<open>min_close\<close>; \<open>zl\<close> is \<^verbatim>\<open>zone.zone_low\<close>, which the loop does not write.
\<close>

fun support_walk :: "real \<Rightarrow> real \<Rightarrow> candle list \<Rightarrow> real \<times> stop" where
  "support_walk zl min_close [] = (min_close, EndOfCandles)"
| "support_walk zl min_close (c # cs) =
     (if low c < zl then (min_close, WickStop)
      else if close c < zl then (min_close, CloseStop)
      else support_walk zl (min min_close (close c)) cs)"

fun resistance_walk :: "real \<Rightarrow> real \<Rightarrow> candle list \<Rightarrow> real \<times> stop" where
  "resistance_walk zh max_close [] = (max_close, EndOfCandles)"
| "resistance_walk zh max_close (c # cs) =
     (if high c > zh then (max_close, WickStop)
      else if close c > zh then (max_close, CloseStop)
      else resistance_walk zh (max max_close (close c)) cs)"

definition refine_zone :: "zone \<Rightarrow> candle list \<Rightarrow> zone" where
  "refine_zone z candles =
     (if ztype z = Support then
        (let refined_high = fst (support_walk (zone_low z) (zone_high z) (drop (pivot_idx z) candles))
         in if refined_high > zone_low z then z\<lparr>zone_high := refined_high\<rparr> else z)
      else
        (let refined_low = fst (resistance_walk (zone_high z) (zone_low z) (drop (pivot_idx z) candles))
         in if refined_low < zone_high z then z\<lparr>zone_low := refined_low\<rparr> else z))"

text \<open>Which branch ended the walk that \<open>refine_zone\<close> makes.\<close>

definition refine_stop :: "zone \<Rightarrow> candle list \<Rightarrow> stop" where
  "refine_stop z candles =
     (if ztype z = Support
      then snd (support_walk (zone_low z) (zone_high z) (drop (pivot_idx z) candles))
      else snd (resistance_walk (zone_high z) (zone_low z) (drop (pivot_idx z) candles)))"

subsection \<open>\<^verbatim>\<open>_is_broken\<close>\<close>

fun broken_loop :: "zone \<Rightarrow> candle list \<Rightarrow> bool" where
  "broken_loop z [] = False"
| "broken_loop z (c # cs) =
     (if ztype z = Resistance \<and> close c > zone_high z then True
      else if ztype z = Support \<and> close c < zone_low z then True
      else broken_loop z cs)"

definition is_broken :: "zone \<Rightarrow> candle list \<Rightarrow> bool" where
  "is_broken z candles = broken_loop z (drop (pivot_idx z) candles)"

subsection \<open>\<^verbatim>\<open>_merge_zones\<close>\<close>

text \<open>The test of a pair: \<^verbatim>\<open>overlap or close_enough\<close>.\<close>

definition should_merge :: "zone \<Rightarrow> zone \<Rightarrow> real \<Rightarrow> bool" where
  "should_merge z1 z2 threshold_pct =
     (let threshold = (zone_high z1 - zone_low z1 + zone_high z2 - zone_low z2) / 2 * threshold_pct;
          overlap = (zone_low z1 \<le> zone_high z2 \<and> zone_low z2 \<le> zone_high z1);
          gap = max (zone_low z1) (zone_low z2) - min (zone_high z1) (zone_high z2);
          close_enough = (gap < threshold)
      in overlap \<or> close_enough)"

text \<open>The four assignments to the object \<open>base\<close>; each reads fields not yet written.\<close>

definition merge_into :: "zone \<Rightarrow> zone \<Rightarrow> zone \<Rightarrow> zone \<Rightarrow> zone" where
  "merge_into base other z1 z2 =
     base\<lparr>zone_low := min (zone_low z1) (zone_low z2),
          zone_high := max (zone_high z1) (zone_high z2),
          strength := strength base + strength other,
          pivot_idx := min (pivot_idx z1) (pivot_idx z2)\<rparr>"

text \<open>
  One pass works on the zones paired with their \<^verbatim>\<open>used\<close> flags. The inner loop runs
  over the entries \<open>j > i\<close>, that is over the tail behind \<open>z1\<close>, and carries the object
  \<open>z1\<close> and the flag \<open>merged\<close>. The zone objects of the list are distinct, as those
  built by \<^verbatim>\<open>detect_zones\<close> are, so a write to \<open>base\<close> changes \<open>z1\<close> when \<open>base\<close> is
  \<open>z1\<close> and the entry \<open>j\<close> when \<open>base\<close> is \<open>z2\<close>.
\<close>

fun merge_inner :: "real \<Rightarrow> zone \<Rightarrow> (zone \<times> bool) list \<Rightarrow> bool \<Rightarrow> zone \<times> (zone \<times> bool) list \<times> bool" where
  "merge_inner t z1 [] merged = (z1, [], merged)"
| "merge_inner t z1 ((z2, used) # rest) merged =
     (if used then
        (case merge_inner t z1 rest merged of (z1', rest', merged') \<Rightarrow> (z1', (z2, used) # rest', merged'))
      else if ztype z1 \<noteq> ztype z2 then
        (case merge_inner t z1 rest merged of (z1', rest', merged') \<Rightarrow> (z1', (z2, used) # rest', merged'))
      else if should_merge z1 z2 t then
        (if origin_time z1 \<le> origin_time z2
         then (case merge_inner t (merge_into z1 z2 z1 z2) rest True of
                 (z1', rest', merged') \<Rightarrow> (z1', (z2, True) # rest', merged'))
         else (case merge_inner t z1 rest True of
                 (z1', rest', merged') \<Rightarrow> (z1', (merge_into z2 z1 z1 z2, True) # rest', merged')))
      else
        (case merge_inner t z1 rest merged of (z1', rest', merged') \<Rightarrow> (z1', (z2, used) # rest', merged')))"

lemma length_merge_inner:
  "merge_inner t z1 rest merged = (z1', rest', merged') \<Longrightarrow> length rest' = length rest"
  by (induction t z1 rest merged arbitrary: z1' rest' merged' rule: merge_inner.induct)
     (auto split: if_splits prod.splits)

text \<open>The outer loop over \<open>i\<close>: a used entry is skipped, another one is appended to \<open>result\<close>.\<close>

function merge_outer :: "real \<Rightarrow> (zone \<times> bool) list \<Rightarrow> zone list \<Rightarrow> bool \<Rightarrow> zone list \<times> bool" where
  "merge_outer t [] result merged = (result, merged)"
| "merge_outer t ((z1, used) # rest) result merged =
     (if used then merge_outer t rest result merged
      else (case merge_inner t z1 rest merged of
              (z1', rest', merged') \<Rightarrow> merge_outer t rest' (result @ [z1']) merged'))"
  by pat_completeness auto
termination
  by (relation "measure (\<lambda>(t, zs, result, merged). length zs)")
     (auto dest: length_merge_inner[OF sym])

text \<open>The body of the \<^verbatim>\<open>while\<close> loop: \<^verbatim>\<open>used = [False] * len(zones)\<close>, then the two loops.\<close>

definition merge_pass :: "zone list \<Rightarrow> real \<Rightarrow> zone list \<times> bool" where
  "merge_pass zones threshold_pct =
     merge_outer threshold_pct (map (\<lambda>z. (z, False)) zones) [] False"

text \<open>The zones of the entries that are not used.\<close>

definition unused :: "(zone \<times> bool) list \<Rightarrow> zone list" where
  "unused zs = map fst (filter (\<lambda>p. \<not> snd p) zs)"

lemma unused_simps [simp]:
  "unused [] = []"
  "unused ((z, u) # zs) = (if u then unused zs else z # unused zs)"
  by (simp_all add: unused_def)

lemma unused_fresh [simp]: "unused (map (\<lambda>z. (z, False)) zs) = zs"
  by (induction zs) simp_all

lemma merge_inner_unused:
  "merge_inner t z1 rest merged = (z1', rest', merged') \<Longrightarrow>
     length (unused rest') \<le> length (unused rest) \<and>
     (merged' \<longleftrightarrow> merged \<or> length (unused rest') < length (unused rest))"
proof (induction t z1 rest merged arbitrary: z1' rest' merged' rule: merge_inner.induct)
  case (1 t z1 merged)
  then show ?case by simp
next
  case (2 t z1 z2 used rest merged)
  show ?case
    using "2.prems" "2.IH"
    by (fastforce split: if_splits prod.splits)
qed

lemma merge_outer_length:
  "merge_outer t zs result merged = (result', merged') \<Longrightarrow>
     length result' \<le> length result + length (unused zs) \<and>
     (merged' \<longleftrightarrow> merged \<or> length result' < length result + length (unused zs))"
proof (induction t zs result merged arbitrary: result' merged' rule: merge_outer.induct)
  case (1 t result merged)
  then show ?case by simp
next
  case (2 t z1 used rest result merged)
  show ?case
  proof (cases used)
    case True
    with 2 show ?thesis by simp
  next
    case False
    obtain z1' rest' m' where inner: "merge_inner t z1 rest merged = (z1', rest', m')"
      by (cases "merge_inner t z1 rest merged") auto
    from "2.prems" False inner
    have outer: "merge_outer t rest' (result @ [z1']) m' = (result', merged')"
      by simp
    from "2.IH"(2)[OF False inner[symmetric] refl outer]
    have ih: "length result' \<le> length (result @ [z1']) + length (unused rest') \<and>
       (merged' \<longleftrightarrow> m' \<or> length result' < length (result @ [z1']) + length (unused rest'))" .
    from merge_inner_unused[OF inner]
    have inn: "length (unused rest') \<le> length (unused rest) \<and>
       (m' \<longleftrightarrow> merged \<or> length (unused rest') < length (unused rest))" .
    from ih inn False show ?thesis by auto
  qed
qed

lemma merge_pass_length:
  "merge_pass zones t = (result, merged) \<Longrightarrow>
     length result \<le> length zones \<and> (merged \<longleftrightarrow> length result < length zones)"
  using merge_outer_length[of t "map (\<lambda>z. (z, False)) zones" "[]" False result merged]
  by (simp add: merge_pass_def)

text \<open>
  The \<^verbatim>\<open>while merged\<close> loop: a pass, then another one on its result when it merged a pair.
  Every pass that merges returns a shorter list, so the loop ends.
\<close>

function merge_loop :: "zone list \<Rightarrow> real \<Rightarrow> zone list" where
  "merge_loop zones threshold_pct =
     (case merge_pass zones threshold_pct of
        (result, merged) \<Rightarrow> if merged then merge_loop result threshold_pct else result)"
  by pat_completeness auto
termination
  by (relation "measure (\<lambda>(zones, t). length zones)")
     (auto dest: merge_pass_length[OF sym])

definition merge_zones :: "zone list \<Rightarrow> real \<Rightarrow> zone list" where
  "merge_zones zones threshold_pct =
     (if zones = [] then zones else merge_loop zones threshold_pct)"

subsection \<open>\<^verbatim>\<open>detect_zones\<close>\<close>

text \<open>The loop over the pivots, on the list \<open>zones\<close> built so far.\<close>

fun zones_loop :: "pivot list \<Rightarrow> candle list \<Rightarrow> zone list \<Rightarrow> zone list" where
  "zones_loop [] candles zones = zones"
| "zones_loop (p # ps) candles zones =
     (case init_zone_from_pivot p candles of
        None \<Rightarrow> zones_loop ps candles zones
      | Some z \<Rightarrow>
          if is_broken z candles then zones_loop ps candles zones
          else zones_loop ps candles (zones @ [refine_zone z candles]))"

text \<open>
  The result \<open>None\<close> is an IndexError raised by \<^verbatim>\<open>_find_pivots\<close>, the only function of
  the pipeline that reads the candle list at an index it does not check.
\<close>

definition detect_zones :: "candle list \<Rightarrow> zone list option" where
  "detect_zones candles =
     (if candles = [] \<or> length candles < 5 then Some []
      else (case find_pivots candles of
              None \<Rightarrow> None
            | Some pivots \<Rightarrow>
                Some (filter (\<lambda>z. zone_low z < zone_high z \<and> status z = Active)
                        (merge_zones (zones_loop pivots candles []) 0.005))))"

subsection \<open>\<^verbatim>\<open>get_nearest_zones\<close>\<close>

text \<open>The loop over the zones, on the two lists built so far.\<close>

fun classify :: "zone list \<Rightarrow> real \<Rightarrow> zone list \<Rightarrow> zone list \<Rightarrow> zone list \<times> zone list" where
  "classify [] current_price rs ss = (rs, ss)"
| "classify (z # zs) current_price rs ss =
     (if ztype z = Resistance \<and> zone_low z > current_price
        then classify zs current_price (rs @ [z]) ss
      else if ztype z = Support \<and> zone_high z < current_price
        then classify zs current_price rs (ss @ [z])
      else if ztype z = Resistance \<and> zone_high z > current_price \<and> current_price > zone_low z
        then classify zs current_price (rs @ [z]) ss
      else if ztype z = Support \<and> zone_low z < current_price \<and> current_price < zone_high z
        then classify zs current_price rs (ss @ [z])
      else classify zs current_price rs ss)"

text \<open>
  \<^verbatim>\<open>list.sort(key=f)\<close> is stable, as \<open>sort_key\<close> is. With \<^verbatim>\<open>reverse=True\<close> the keys
  descend and elements of equal key keep their order.
\<close>

definition sort_reverse :: "('a \<Rightarrow> 'k::linorder) \<Rightarrow> 'a list \<Rightarrow> 'a list" where
  "sort_reverse f xs = rev (sort_key f (rev xs))"

text \<open>The dictionary \<^verbatim>\<open>{"resistance": .., "support": ..}\<close> that is returned.\<close>

record nearest =
  resistance :: "zone list"
  support :: "zone list"

definition get_nearest_zones :: "zone list \<Rightarrow> real \<Rightarrow> int \<Rightarrow> int \<Rightarrow> nearest" where
  "get_nearest_zones zones current_price max_resistance max_support =
     (case classify zones current_price [] [] of
        (rs, ss) \<Rightarrow>
          \<lparr>resistance = py_prefix (sort_key zone_low rs) max_resistance,
           support = py_prefix (sort_reverse zone_high ss) max_support\<rparr>)"

subsection \<open>Example candles\<close>

text \<open>A candle with the given high and low that opens at its low and closes at its high.\<close>

definition bar :: "real \<Rightarrow> real \<Rightarrow> candle" where
  "bar h l = \<lparr>open_time = 0, open_c = l, high = h, low = l, close = h, volume = 0\<rparr>"

text \<open>A candle with the given open time, open, high, low and close.\<close>

definition ohlc :: "int \<Rightarrow> real \<Rightarrow> real \<Rightarrow> real \<Rightarrow> real \<Rightarrow> candle" where
  "ohlc t opn h l c = \<lparr>open_time = t, open_c = opn, high = h, low = l, close = c, volume = 0\<rparr>"

text \<open>Closes above 90 after candle 1, until candle 4 makes a lower low of 89.\<close>

definition dip :: "candle list" where
  "dip = [ohlc 0 97 98 92 97, ohlc 1 96 97 90 96, ohlc 2 94 95 91 93,
          ohlc 3 93 95 92 94, ohlc 4 94 94 89 91, ohlc 5 91 93 90 92]"

text \<open>Closes below 105, until candle 2 makes a higher high of 106.\<close>

definition peak :: "candle list" where
  "peak = [ohlc 0 100 105 99 101, ohlc 1 101 104 100 103, ohlc 2 103 106 102 104]"

subsection \<open>The refinement in the words of the specification\<close>

text \<open>
  What section 4.4 of the specification says of the refiner: the walk starts at the pivot
  index and stops at the first candle whose wick exceeds the outer bound or whose close
  breaches it; the extreme of the closes before that candle, and of the inner bound the
  zone has, becomes the inner bound when it does not reach the outer bound.
\<close>

definition stops_walk :: "zone \<Rightarrow> candle \<Rightarrow> bool" where
  "stops_walk z c =
     (if ztype z = Support
      then low c < zone_low z \<or> close c < zone_low z
      else high c > zone_high z \<or> close c > zone_high z)"

definition walked :: "zone \<Rightarrow> candle list \<Rightarrow> candle list" where
  "walked z candles = takeWhile (\<lambda>c. \<not> stops_walk z c) (drop (pivot_idx z) candles)"

definition refine_spec :: "zone \<Rightarrow> candle list \<Rightarrow> zone" where
  "refine_spec z candles =
     (if ztype z = Support then
        (let extreme = Min (set (zone_high z # map close (walked z candles)))
         in if extreme > zone_low z then z\<lparr>zone_high := extreme\<rparr> else z)
      else
        (let extreme = Max (set (zone_low z # map close (walked z candles)))
         in if extreme < zone_high z then z\<lparr>zone_low := extreme\<rparr> else z))"

subsection \<open>The refinement without its close-breach branch\<close>

text \<open>
  The two loops of \<^verbatim>\<open>_refine_zone\<close> with the branch
  \<^verbatim>\<open>if c["close"] < zone.zone_low: break\<close> (for a resistance zone
  \<^verbatim>\<open>if c["close"] > zone.zone_high: break\<close>) deleted, and nothing else changed.
\<close>

fun support_walk_wick_only :: "real \<Rightarrow> real \<Rightarrow> candle list \<Rightarrow> real \<times> stop" where
  "support_walk_wick_only zl min_close [] = (min_close, EndOfCandles)"
| "support_walk_wick_only zl min_close (c # cs) =
     (if low c < zl then (min_close, WickStop)
      else support_walk_wick_only zl (min min_close (close c)) cs)"

fun resistance_walk_wick_only :: "real \<Rightarrow> real \<Rightarrow> candle list \<Rightarrow> real \<times> stop" where
  "resistance_walk_wick_only zh max_close [] = (max_close, EndOfCandles)"
| "resistance_walk_wick_only zh max_close (c # cs) =
     (if high c > zh then (max_close, WickStop)
      else resistance_walk_wick_only zh (max max_close (close c)) cs)"

definition refine_zone_wick_only :: "zone \<Rightarrow> candle list \<Rightarrow> zone" where
  "refine_zone_wick_only z candles =
     (if ztype z = Support then
        (let refined_high = fst (support_walk_wick_only (zone_low z) (zone_high z) (drop (pivot_idx z) candles))
         in if refined_high > zone_low z then z\<lparr>zone_high := refined_high\<rparr> else z)
      else
        (let refined_low = fst (resistance_walk_wick_only (zone_high z) (zone_low z) (drop (pivot_idx z) candles))
         in if refined_low < zone_high z then z\<lparr>zone_low := refined_low\<rparr> else z))"

section \<open>Pivot detection\<close>

text \<open>
  Every index of \<^verbatim>\<open>range(2, n - 2)\<close> has its four neighbours in the list, so no read of
  \<^verbatim>\<open>_find_pivots\<close> raises, and the loop appends at index \<open>i\<close> the pivots \<open>pivots_at candles i\<close>.
\<close>

definition pivots_at :: "candle list \<Rightarrow> nat \<Rightarrow> pivot list" where
  "pivots_at candles i =
     (let c = candles ! i in
      (if high c > high (candles ! (i - 1)) \<and> high c > high (candles ! (i - 2)) \<and>
          high c > high (candles ! (i + 1)) \<and> high c > high (candles ! (i + 2))
       then [\<lparr>idx = i, ptype = High, candle = c\<rparr>] else [])
      @ (if low c < low (candles ! (i - 1)) \<and> low c < low (candles ! (i - 2)) \<and>
            low c < low (candles ! (i + 1)) \<and> low c < low (candles ! (i + 2))
         then [\<lparr>idx = i, ptype = Low, candle = c\<rparr>] else []))"

lemma item_in_range: "0 \<le> k \<Longrightarrow> k < int (length xs) \<Longrightarrow> item xs k = Some (xs ! nat k)"
  by (simp add: item_def Let_def)

lemma py_and_Some: "py_and (Some a) (Some b) = Some (a \<and> b)"
  by (cases a) simp_all

lemma is_ph_in_range:
  assumes "2 \<le> i" "i + 2 < length cs"
  shows "is_ph cs i c = Some (high c > high (cs ! (i - 1)) \<and> high c > high (cs ! (i - 2)) \<and>
          high c > high (cs ! (i + 1)) \<and> high c > high (cs ! (i + 2)))"
proof -
  have a: "item cs (int i - 1) = Some (cs ! (i - 1))"
    using assms item_in_range[of "int i - 1" cs] by (simp add: nat_diff_distrib')
  have b: "item cs (int i - 2) = Some (cs ! (i - 2))"
    using assms item_in_range[of "int i - 2" cs] by (simp add: nat_diff_distrib')
  have c: "item cs (int i + 1) = Some (cs ! (i + 1))"
    using assms item_in_range[of "int i + 1" cs] by (simp add: nat_add_distrib)
  have d: "item cs (int i + 2) = Some (cs ! (i + 2))"
    using assms item_in_range[of "int i + 2" cs] by (simp add: nat_add_distrib)
  show ?thesis
    by (simp add: is_ph_def high_above_def a b c d py_and_Some)
qed

lemma is_pl_in_range:
  assumes "2 \<le> i" "i + 2 < length cs"
  shows "is_pl cs i c = Some (low c < low (cs ! (i - 1)) \<and> low c < low (cs ! (i - 2)) \<and>
          low c < low (cs ! (i + 1)) \<and> low c < low (cs ! (i + 2)))"
proof -
  have a: "item cs (int i - 1) = Some (cs ! (i - 1))"
    using assms item_in_range[of "int i - 1" cs] by (simp add: nat_diff_distrib')
  have b: "item cs (int i - 2) = Some (cs ! (i - 2))"
    using assms item_in_range[of "int i - 2" cs] by (simp add: nat_diff_distrib')
  have c: "item cs (int i + 1) = Some (cs ! (i + 1))"
    using assms item_in_range[of "int i + 1" cs] by (simp add: nat_add_distrib)
  have d: "item cs (int i + 2) = Some (cs ! (i + 2))"
    using assms item_in_range[of "int i + 2" cs] by (simp add: nat_add_distrib)
  show ?thesis
    by (simp add: is_pl_def low_below_def a b c d py_and_Some)
qed

lemma pivots_step_in_range:
  assumes "2 \<le> i" "i + 2 < length cs"
  shows "pivots_step cs i ps = Some (ps @ pivots_at cs i)"
proof -
  have "item cs (int i) = Some (cs ! i)"
    using assms item_in_range[of "int i" cs] by simp
  then show ?thesis
    by (simp add: pivots_step_def is_ph_in_range[OF assms] is_pl_in_range[OF assms]
        pivots_at_def Let_def)
qed

lemma pivots_loop_in_range:
  "\<forall>i \<in> set is. 2 \<le> i \<and> i + 2 < length cs \<Longrightarrow>
     pivots_loop cs is ps = Some (ps @ concat (map (pivots_at cs) is))"
  by (induction "is" arbitrary: ps) (simp_all add: pivots_step_in_range)

lemma find_pivots_total:
  "find_pivots cs = Some (concat (map (pivots_at cs) [2..<length cs - 2]))"
  unfolding find_pivots_def
  by (subst pivots_loop_in_range) auto

lemma idx_pivots_at: "p \<in> set (pivots_at cs i) \<Longrightarrow> idx p = i"
  by (auto simp: pivots_at_def Let_def split: if_splits)

lemma candle_pivots_at: "p \<in> set (pivots_at cs i) \<Longrightarrow> candle p = cs ! i"
  by (auto simp: pivots_at_def Let_def split: if_splits)

lemma sorted_idx_concat:
  "sorted is \<Longrightarrow> sorted (map idx (concat (map (pivots_at cs) is)))"
proof (induction "is")
  case Nil
  then show ?case by simp
next
  case (Cons i "is")
  have here: "map idx (pivots_at cs i) = replicate (length (pivots_at cs i)) i"
    by (simp add: pivots_at_def Let_def)
  from Cons show ?case
    by (auto simp: sorted_append here dest!: idx_pivots_at)
qed

lemma high_reported:
  "(\<exists>p \<in> set (concat (map (pivots_at cs) js)). idx p = i \<and> ptype p = High) \<longleftrightarrow>
     (i \<in> set js \<and>
      high (cs ! i) > high (cs ! (i - 2)) \<and> high (cs ! i) > high (cs ! (i - 1)) \<and>
      high (cs ! i) > high (cs ! (i + 1)) \<and> high (cs ! i) > high (cs ! (i + 2)))"
proof -
  have "(\<exists>p \<in> set (concat (map (pivots_at cs) js)). idx p = i \<and> ptype p = High) \<longleftrightarrow>
        (\<exists>j \<in> set js. \<exists>p \<in> set (pivots_at cs j). idx p = i \<and> ptype p = High)"
    by auto
  also have "\<dots> \<longleftrightarrow> (i \<in> set js \<and> (\<exists>p \<in> set (pivots_at cs i). ptype p = High))"
    using idx_pivots_at by blast
  also have "(\<exists>p \<in> set (pivots_at cs i). ptype p = High) \<longleftrightarrow>
      (high (cs ! i) > high (cs ! (i - 2)) \<and> high (cs ! i) > high (cs ! (i - 1)) \<and>
       high (cs ! i) > high (cs ! (i + 1)) \<and> high (cs ! i) > high (cs ! (i + 2)))"
    by (auto simp: pivots_at_def Let_def)
  finally show ?thesis .
qed

lemma low_reported:
  "(\<exists>p \<in> set (concat (map (pivots_at cs) js)). idx p = i \<and> ptype p = Low) \<longleftrightarrow>
     (i \<in> set js \<and>
      low (cs ! i) < low (cs ! (i - 2)) \<and> low (cs ! i) < low (cs ! (i - 1)) \<and>
      low (cs ! i) < low (cs ! (i + 1)) \<and> low (cs ! i) < low (cs ! (i + 2)))"
proof -
  have "(\<exists>p \<in> set (concat (map (pivots_at cs) js)). idx p = i \<and> ptype p = Low) \<longleftrightarrow>
        (\<exists>j \<in> set js. \<exists>p \<in> set (pivots_at cs j). idx p = i \<and> ptype p = Low)"
    by auto
  also have "\<dots> \<longleftrightarrow> (i \<in> set js \<and> (\<exists>p \<in> set (pivots_at cs i). ptype p = Low))"
    using idx_pivots_at by blast
  also have "(\<exists>p \<in> set (pivots_at cs i). ptype p = Low) \<longleftrightarrow>
      (low (cs ! i) < low (cs ! (i - 2)) \<and> low (cs ! i) < low (cs ! (i - 1)) \<and>
       low (cs ! i) < low (cs ! (i + 1)) \<and> low (cs ! i) < low (cs ! (i + 2)))"
    by (auto simp: pivots_at_def Let_def)
  finally show ?thesis .
qed

lemma candle_reported:
  "p \<in> set (concat (map (pivots_at cs) js)) \<Longrightarrow> candle p = cs ! idx p"
proof -
  assume "p \<in> set (concat (map (pivots_at cs) js))"
  then obtain j where "p \<in> set (pivots_at cs j)" by auto
  then show ?thesis
    using idx_pivots_at[of p cs j] candle_pivots_at[of p cs j] by simp
qed

lemma window_range: "i \<in> set [2..<length cs - 2] \<longleftrightarrow> 2 \<le> i \<and> i + 3 \<le> length cs"
  by auto

text \<open>
  Claim C7. For a candle list of length \<open>n\<close>, \<^verbatim>\<open>_find_pivots\<close> returns a list (it does not
  raise) that holds a pivot high of index \<open>i\<close> exactly when \<open>2 \<le> i \<le> n - 3\<close> and the high
  of candle \<open>i\<close> is strictly greater than the highs of the candles \<open>i - 2\<close>, \<open>i - 1\<close>,
  \<open>i + 1\<close> and \<open>i + 2\<close>, and a pivot low exactly when the low of candle \<open>i\<close> is strictly
  less than the lows of these four; an extreme equal to a neighbour's does not qualify, as
  the comparisons are strict. Each pivot carries the candle of its index, the list is
  ordered by index, and a list of fewer than five candles has no pivots. A high and a low
  of the same index are both reported when both tests hold.
\<close>

theorem find_pivots_fractal:
  "\<exists>ps. find_pivots cs = Some ps \<and>
     (\<forall>i. (\<exists>p \<in> set ps. idx p = i \<and> ptype p = High) \<longleftrightarrow>
        (2 \<le> i \<and> i + 3 \<le> length cs \<and>
         high (cs ! i) > high (cs ! (i - 2)) \<and> high (cs ! i) > high (cs ! (i - 1)) \<and>
         high (cs ! i) > high (cs ! (i + 1)) \<and> high (cs ! i) > high (cs ! (i + 2)))) \<and>
     (\<forall>i. (\<exists>p \<in> set ps. idx p = i \<and> ptype p = Low) \<longleftrightarrow>
        (2 \<le> i \<and> i + 3 \<le> length cs \<and>
         low (cs ! i) < low (cs ! (i - 2)) \<and> low (cs ! i) < low (cs ! (i - 1)) \<and>
         low (cs ! i) < low (cs ! (i + 1)) \<and> low (cs ! i) < low (cs ! (i + 2)))) \<and>
     (\<forall>p \<in> set ps. candle p = cs ! idx p) \<and>
     sorted (map idx ps) \<and>
     (length cs < 5 \<longrightarrow> ps = [])"
proof (intro exI conjI)
  show "find_pivots cs = Some (concat (map (pivots_at cs) [2..<length cs - 2]))"
    by (rule find_pivots_total)
  show "\<forall>i. (\<exists>p \<in> set (concat (map (pivots_at cs) [2..<length cs - 2])). idx p = i \<and> ptype p = High) \<longleftrightarrow>
        (2 \<le> i \<and> i + 3 \<le> length cs \<and>
         high (cs ! i) > high (cs ! (i - 2)) \<and> high (cs ! i) > high (cs ! (i - 1)) \<and>
         high (cs ! i) > high (cs ! (i + 1)) \<and> high (cs ! i) > high (cs ! (i + 2)))"
    unfolding high_reported window_range by (simp add: conj_ac)
  show "\<forall>i. (\<exists>p \<in> set (concat (map (pivots_at cs) [2..<length cs - 2])). idx p = i \<and> ptype p = Low) \<longleftrightarrow>
        (2 \<le> i \<and> i + 3 \<le> length cs \<and>
         low (cs ! i) < low (cs ! (i - 2)) \<and> low (cs ! i) < low (cs ! (i - 1)) \<and>
         low (cs ! i) < low (cs ! (i + 1)) \<and> low (cs ! i) < low (cs ! (i + 2)))"
    unfolding low_reported window_range by (simp add: conj_ac)
  show "\<forall>p \<in> set (concat (map (pivots_at cs) [2..<length cs - 2])). candle p = cs ! idx p"
    using candle_reported by blast
  show "sorted (map idx (concat (map (pivots_at cs) [2..<length cs - 2])))"
    by (rule sorted_idx_concat) simp
  show "length cs < 5 \<longrightarrow> concat (map (pivots_at cs) [2..<length cs - 2]) = []"
    by simp
qed

text \<open>
  The theorem on five candles whose middle one has the highest high and the lowest low:
  index 2 is reported as a pivot high and as a pivot low, index 3 is not a pivot high.
  Four candles give no pivots.
\<close>

theorem find_pivots_fractal_witness:
  "(\<exists>ps. find_pivots [bar 100 95, bar 101 96, bar 105 90, bar 102 97, bar 99 94] = Some ps \<and>
      (\<exists>p \<in> set ps. idx p = 2 \<and> ptype p = High) \<and>
      (\<exists>p \<in> set ps. idx p = 2 \<and> ptype p = Low) \<and>
      \<not> (\<exists>p \<in> set ps. idx p = 3 \<and> ptype p = High) \<and>
      (\<forall>p \<in> set ps. candle p = [bar 100 95, bar 101 96, bar 105 90, bar 102 97, bar 99 94] ! idx p) \<and>
      sorted (map idx ps)) \<and>
   length [bar 100 95, bar 101 96, bar 105 90, bar 102 97] < 5 \<and>
   find_pivots [bar 100 95, bar 101 96, bar 105 90, bar 102 97] = Some []"
proof -
  let ?cs = "[bar 100 95, bar 101 96, bar 105 90, bar 102 97, bar 99 94]"
  from find_pivots_fractal[of ?cs] obtain ps where
    ps: "find_pivots ?cs = Some ps"
    and hi: "\<forall>i. (\<exists>p \<in> set ps. idx p = i \<and> ptype p = High) \<longleftrightarrow>
        (2 \<le> i \<and> i + 3 \<le> length ?cs \<and>
         high (?cs ! i) > high (?cs ! (i - 2)) \<and> high (?cs ! i) > high (?cs ! (i - 1)) \<and>
         high (?cs ! i) > high (?cs ! (i + 1)) \<and> high (?cs ! i) > high (?cs ! (i + 2)))"
    and lo: "\<forall>i. (\<exists>p \<in> set ps. idx p = i \<and> ptype p = Low) \<longleftrightarrow>
        (2 \<le> i \<and> i + 3 \<le> length ?cs \<and>
         low (?cs ! i) < low (?cs ! (i - 2)) \<and> low (?cs ! i) < low (?cs ! (i - 1)) \<and>
         low (?cs ! i) < low (?cs ! (i + 1)) \<and> low (?cs ! i) < low (?cs ! (i + 2)))"
    and ca: "\<forall>p \<in> set ps. candle p = ?cs ! idx p"
    and so: "sorted (map idx ps)"
    by blast
  from hi[rule_format, of 2] have h2: "\<exists>p \<in> set ps. idx p = 2 \<and> ptype p = High"
    by (simp add: bar_def)
  from lo[rule_format, of 2] have l2: "\<exists>p \<in> set ps. idx p = 2 \<and> ptype p = Low"
    by (simp add: bar_def)
  from hi[rule_format, of 3] have h3: "\<not> (\<exists>p \<in> set ps. idx p = 3 \<and> ptype p = High)"
    by simp
  let ?ds = "[bar 100 95, bar 101 96, bar 105 90, bar 102 97]"
  have short: "length ?ds < 5" by simp
  from find_pivots_fractal[of ?ds] short have e: "find_pivots ?ds = Some []"
    by auto
  from ps h2 l2 h3 ca so short e show ?thesis by blast
qed

section \<open>Short candle lists\<close>

text \<open>
  Claim C9. On fewer than five candles \<^verbatim>\<open>detect_zones\<close> returns the empty list and does
  not raise, and \<^verbatim>\<open>_find_pivots\<close> returns the empty pivot list.
\<close>

theorem short_sequence_no_zones:
  "length cs < 5 \<Longrightarrow> detect_zones cs = Some [] \<and> find_pivots cs = Some []"
proof -
  assume "length cs < 5"
  then have e: "[2..<length cs - 2] = []" by simp
  have "find_pivots cs = Some []" unfolding find_pivots_def e by simp
  moreover from \<open>length cs < 5\<close> have "detect_zones cs = Some []"
    by (simp add: detect_zones_def)
  ultimately show ?thesis by simp
qed

theorem short_sequence_no_zones_witness:
  "length [bar 100 95, bar 101 96, bar 105 90, bar 102 97] < 5 \<and>
   detect_zones [bar 100 95, bar 101 96, bar 105 90, bar 102 97] = Some [] \<and>
   find_pivots [bar 100 95, bar 101 96, bar 105 90, bar 102 97] = Some []"
  using short_sequence_no_zones[of "[bar 100 95, bar 101 96, bar 105 90, bar 102 97]"]
  by simp

section \<open>Refinement\<close>

lemma support_walk_fold:
  "fst (support_walk zl acc cs) =
     fold min (map close (takeWhile (\<lambda>c. \<not> (low c < zl \<or> close c < zl)) cs)) acc"
  by (induction cs arbitrary: acc) (simp_all add: min.commute)

lemma resistance_walk_fold:
  "fst (resistance_walk zh acc cs) =
     fold max (map close (takeWhile (\<lambda>c. \<not> (high c > zh \<or> close c > zh)) cs)) acc"
  by (induction cs arbitrary: acc) (simp_all add: max.commute)

lemma refine_zone_spec: "refine_zone z cs = refine_spec z cs"
proof (cases "ztype z = Support")
  case True
  then have "walked z cs = takeWhile (\<lambda>c. \<not> (low c < zone_low z \<or> close c < zone_low z)) (drop (pivot_idx z) cs)"
    by (simp add: walked_def stops_walk_def)
  with True show ?thesis
    by (simp add: refine_zone_def refine_spec_def support_walk_fold Min.set_eq_fold del: set_simps)
next
  case False
  then have "walked z cs = takeWhile (\<lambda>c. \<not> (high c > zone_high z \<or> close c > zone_high z)) (drop (pivot_idx z) cs)"
    by (simp add: walked_def stops_walk_def)
  with False show ?thesis
    by (simp add: refine_zone_def refine_spec_def resistance_walk_fold Max.set_eq_fold del: set_simps)
qed

lemma support_walk_le: "fst (support_walk zl acc cs) \<le> acc"
proof (induction cs arbitrary: acc)
  case Nil
  show ?case by simp
next
  case (Cons c cs)
  have "fst (support_walk zl (min acc (close c)) cs) \<le> min acc (close c)"
    by (rule Cons.IH)
  then have "fst (support_walk zl (min acc (close c)) cs) \<le> acc"
    by simp
  then show ?case by simp
qed

lemma resistance_walk_ge: "acc \<le> fst (resistance_walk zh acc cs)"
proof (induction cs arbitrary: acc)
  case Nil
  show ?case by simp
next
  case (Cons c cs)
  have "max acc (close c) \<le> fst (resistance_walk zh (max acc (close c)) cs)"
    by (rule Cons.IH)
  then have "acc \<le> fst (resistance_walk zh (max acc (close c)) cs)"
    by simp
  then show ?case by simp
qed

lemma refine_zone_fields:
  "ztype (refine_zone z cs) = ztype z"
  "origin_time (refine_zone z cs) = origin_time z"
  "strength (refine_zone z cs) = strength z"
  "touches (refine_zone z cs) = touches z"
  "status (refine_zone z cs) = status z"
  "pivot_idx (refine_zone z cs) = pivot_idx z"
  by (simp_all add: refine_zone_def Let_def)

lemma refine_zone_outer:
  "ztype z = Support \<Longrightarrow> zone_low (refine_zone z cs) = zone_low z"
  "ztype z = Resistance \<Longrightarrow> zone_high (refine_zone z cs) = zone_high z"
  by (simp_all add: refine_zone_def Let_def)

lemma refine_zone_inner:
  "ztype z = Support \<Longrightarrow> zone_high (refine_zone z cs) \<le> zone_high z"
  "ztype z = Resistance \<Longrightarrow> zone_low z \<le> zone_low (refine_zone z cs)"
  by (simp_all add: refine_zone_def Let_def support_walk_le resistance_walk_ge)

lemma refine_zone_valid:
  "zone_low z < zone_high z \<Longrightarrow> zone_low (refine_zone z cs) < zone_high (refine_zone z cs)"
  by (simp add: refine_zone_def Let_def)

text \<open>
  Claim C8. For a zone with \<open>zone_low < zone_high\<close>, \<^verbatim>\<open>_refine_zone\<close> does what the
  specification says: it walks forward from the pivot index over the candles before the
  first one whose wick exceeds the outer bound or whose close breaches it (the closes of
  that candle and of the later ones are left out), takes the extreme of their closes and
  of the inner bound, and makes it the inner bound only if it does not reach the outer
  bound. The refined zone still has \<open>zone_low < zone_high\<close>, its inner bound has not
  moved away from the outer one, and its outer bound, kind, origin time, strength and
  pivot index are those of the zone it was given.
\<close>

theorem refine_zone_narrows:
  assumes "zone_low z < zone_high z"
  shows "refine_zone z cs = refine_spec z cs \<and>
         zone_low (refine_zone z cs) < zone_high (refine_zone z cs) \<and>
         (ztype z = Support \<longrightarrow>
            zone_low (refine_zone z cs) = zone_low z \<and> zone_high (refine_zone z cs) \<le> zone_high z) \<and>
         (ztype z = Resistance \<longrightarrow>
            zone_high (refine_zone z cs) = zone_high z \<and> zone_low z \<le> zone_low (refine_zone z cs)) \<and>
         ztype (refine_zone z cs) = ztype z \<and>
         origin_time (refine_zone z cs) = origin_time z \<and>
         strength (refine_zone z cs) = strength z \<and>
         pivot_idx (refine_zone z cs) = pivot_idx z"
  using assms
  by (simp add: refine_zone_spec[symmetric] refine_zone_valid refine_zone_fields
      refine_zone_outer refine_zone_inner)

text \<open>
  The theorem on a support zone, whose upper bound 95 comes down to the close 93, and on
  a resistance zone, whose lower bound 100 goes up to the close 103.
\<close>

theorem refine_zone_narrows_witness:
  "zone_low (Zone Support 90 95 1 1) < zone_high (Zone Support 90 95 1 1) \<and>
   refine_zone (Zone Support 90 95 1 1) dip = refine_spec (Zone Support 90 95 1 1) dip \<and>
   refine_zone (Zone Support 90 95 1 1) dip = Zone Support 90 93 1 1 \<and>
   zone_low (Zone Resistance 100 105 0 0) < zone_high (Zone Resistance 100 105 0 0) \<and>
   refine_zone (Zone Resistance 100 105 0 0) peak = refine_spec (Zone Resistance 100 105 0 0) peak \<and>
   refine_zone (Zone Resistance 100 105 0 0) peak = Zone Resistance 103 105 0 0"
proof -
  have s: "zone_low (Zone Support 90 95 1 1) < zone_high (Zone Support 90 95 1 1)"
    by (simp add: Zone_def)
  have r: "zone_low (Zone Resistance 100 105 0 0) < zone_high (Zone Resistance 100 105 0 0)"
    by (simp add: Zone_def)
  have sv: "refine_zone (Zone Support 90 95 1 1) dip = Zone Support 90 93 1 1"
    by (simp add: refine_zone_def Zone_def dip_def ohlc_def)
  have rv: "refine_zone (Zone Resistance 100 105 0 0) peak = Zone Resistance 103 105 0 0"
    by (simp add: refine_zone_def Zone_def peak_def ohlc_def)
  from refine_zone_narrows[OF s, of dip] refine_zone_narrows[OF r, of peak] s r sv rv
  show ?thesis by simp
qed

section \<open>The close-breach branch of the refinement\<close>

lemma broken_loop_iff:
  "broken_loop z cs \<longleftrightarrow>
     (\<exists>c \<in> set cs. (ztype z = Resistance \<and> close c > zone_high z) \<or>
                    (ztype z = Support \<and> close c < zone_low z))"
  by (induction cs) auto

lemma support_wick_only_stop: "snd (support_walk_wick_only zl acc cs) \<noteq> CloseStop"
  by (induction cs arbitrary: acc) simp_all

lemma resistance_wick_only_stop: "snd (resistance_walk_wick_only zh acc cs) \<noteq> CloseStop"
  by (induction cs arbitrary: acc) simp_all

lemma support_walk_no_close:
  "\<forall>c \<in> set cs. \<not> close c < zl \<Longrightarrow>
     support_walk zl acc cs = support_walk_wick_only zl acc cs"
  by (induction cs arbitrary: acc) simp_all

lemma resistance_walk_no_close:
  "\<forall>c \<in> set cs. \<not> close c > zh \<Longrightarrow>
     resistance_walk zh acc cs = resistance_walk_wick_only zh acc cs"
  by (induction cs arbitrary: acc) simp_all

text \<open>
  Claim C10. When \<^verbatim>\<open>_is_broken(z, cs)\<close> is false, the walk of \<^verbatim>\<open>_refine_zone\<close> never ends
  in its close-breach branch: it ends in the wick branch or at the end of the candles, and
  \<^verbatim>\<open>_refine_zone\<close> returns what it returns with that branch deleted.
\<close>

theorem close_break_unreachable:
  assumes "\<not> is_broken z cs"
  shows "refine_stop z cs \<noteq> CloseStop \<and> refine_zone z cs = refine_zone_wick_only z cs"
proof (cases "ztype z")
  case Support
  with assms have "\<forall>c \<in> set (drop (pivot_idx z) cs). \<not> close c < zone_low z"
    by (auto simp: is_broken_def broken_loop_iff)
  from support_walk_no_close[OF this, of "zone_high z"] Support show ?thesis
    by (simp add: refine_stop_def refine_zone_def refine_zone_wick_only_def support_wick_only_stop)
next
  case Resistance
  with assms have "\<forall>c \<in> set (drop (pivot_idx z) cs). \<not> close c > zone_high z"
    by (auto simp: is_broken_def broken_loop_iff)
  from resistance_walk_no_close[OF this, of "zone_low z"] Resistance show ?thesis
    by (simp add: refine_stop_def refine_zone_def refine_zone_wick_only_def resistance_wick_only_stop)
qed

text \<open>The theorem on the support zone above, which is not broken; its walk ends at a wick.\<close>

theorem close_break_unreachable_witness:
  "\<not> is_broken (Zone Support 90 95 1 1) dip \<and>
   refine_stop (Zone Support 90 95 1 1) dip = WickStop \<and>
   refine_zone (Zone Support 90 95 1 1) dip = refine_zone_wick_only (Zone Support 90 95 1 1) dip"
proof -
  have nb: "\<not> is_broken (Zone Support 90 95 1 1) dip"
    by (simp add: is_broken_def Zone_def dip_def ohlc_def)
  have st: "refine_stop (Zone Support 90 95 1 1) dip = WickStop"
    by (simp add: refine_stop_def Zone_def dip_def ohlc_def)
  from close_break_unreachable[OF nb] nb st show ?thesis by simp
qed

end
